theory Spec2Isabelle
  imports Complex_Main
begin

section \<open>Chunker: \<open>src/utils/chunking.py\<close>\<close>

text \<open>
  \<open>naive_chunking(text, overlap=True)\<close> walks a list of \<open>(t, n)\<close> pairs (segment text,
  page number) and keeps four variables: \<open>current_string\<close>, \<open>last_str\<close>,
  \<open>page_num\<close> (\<open>None\<close> until first assigned) and \<open>output_dict\<close>, a Python dict from
  chunk text to page number. A Python dict keeps insertion order, and assigning to a key
  that is already present replaces the value in place; it is an association list here.
  The segments come from \<open>process_pdf\<close>, whose pages are integers.
\<close>

type_synonym segment = "string \<times> int"

type_synonym pydict = "(string \<times> int option) list"

fun dict_assign :: "pydict \<Rightarrow> string \<Rightarrow> int option \<Rightarrow> pydict" where
  "dict_assign [] k v = [(k, v)]"
| "dict_assign ((k', v') # d) k v =
     (if k' = k then (k', v) # d else (k', v') # dict_assign d k v)"

record chunk =
  chunk_text :: string
  page_no :: "int option"

definition max_len :: nat where
  "max_len = 2500"

text \<open>
  The state of the loop. \<open>sealed\<close> is a history variable that the source does not have:
  it logs every assignment \<open>output_dict[current_string] = page_num\<close> in the order in
  which it happens, so that the accumulators that were sealed can be talked about.
\<close>

record chunker =
  current_string :: string
  last_str :: string
  page_num :: "int option"
  output_dict :: pydict
  sealed :: "(string \<times> int option) list"

definition chunker_init :: chunker where
  "chunker_init =
     \<lparr>current_string = [], last_str = [], page_num = None, output_dict = [], sealed = []\<rparr>"

text \<open>\<open>output_dict[current_string] = page_num\<close>\<close>

definition seal :: "chunker \<Rightarrow> chunker" where
  "seal s = s\<lparr>output_dict := dict_assign (output_dict s) (current_string s) (page_num s),
              sealed := sealed s @ [(current_string s, page_num s)]\<rparr>"

text \<open>\<open>len(t) > 1 and t[0:1] == "#"\<close>\<close>

definition is_header :: "string \<Rightarrow> bool" where
  "is_header t = (length t > 1 \<and> take 1 t = ''#'')"

text \<open>One iteration of \<open>for t, n in text\<close>.\<close>

definition chunk_step :: "bool \<Rightarrow> chunker \<Rightarrow> segment \<Rightarrow> chunker" where
  "chunk_step overlap s seg =
     (case seg of (t, n) \<Rightarrow>
        if is_header t then
          (if page_num s \<noteq> None then seal s else s)
            \<lparr>current_string := t, page_num := Some n\<rparr>
        else if length (current_string s) + length t \<le> max_len then
          s\<lparr>current_string := current_string s @ '' '' @ t,
            last_str := t,
            page_num := (case page_num s of
                           None \<Rightarrow> Some n
                         | Some p \<Rightarrow> if n < p then Some n else Some p)\<rparr>
        else
          (seal s)\<lparr>current_string := (if overlap then last_str s @ '' '' @ t else t),
                   page_num := Some n\<rparr>)"

definition chunk_loop :: "bool \<Rightarrow> segment list \<Rightarrow> chunker" where
  "chunk_loop overlap segs = foldl (chunk_step overlap) chunker_init segs"

definition mk_chunk :: "string \<times> int option \<Rightarrow> chunk" where
  "mk_chunk kv = \<lparr>chunk_text = fst kv, page_no = snd kv\<rparr>"

text \<open>
  After the loop the last accumulator is assigned to the dict, and the dict's items
  become the output list, in the dict's order.
\<close>

definition naive_chunking :: "segment list \<Rightarrow> bool \<Rightarrow> chunk list" where
  "naive_chunking segs overlap =
     map mk_chunk (output_dict (seal (chunk_loop overlap segs)))"

text \<open>The accumulators that were sealed, in sealing order, the final one included.\<close>

definition sealed_chunks :: "segment list \<Rightarrow> bool \<Rightarrow> (string \<times> int option) list" where
  "sealed_chunks segs overlap = sealed (seal (chunk_loop overlap segs))"

section \<open>Irrelevant page detector: \<open>src/ingestor/pdf_util.py\<close>\<close>

text \<open>
  \<open>detect_irrelevant_pages(doc)\<close> reads each page's text only through the language
  detector and through regular-expression searches. Those are library calls; a page is
  given here by what they return on its lower-cased text:
  \<^item> \<open>lang\<close>: the result of \<open>detect(text)\<close>, \<open>None\<close> when \<open>detect\<close> raised (the source
    initialises \<open>lang = None\<close> and the \<open>except\<close> branch only prints);
  \<^item> \<open>word_count\<close>: \<open>len(text.split())\<close>;
  \<^item> \<open>title_words\<close>: \<open>re.search(r'by|author|copyright|all rights reserved', text)\<close>;
  \<^item> \<open>notices_words\<close>: \<open>re.search(r'notices|acknowledgments', text)\<close>;
  \<^item> \<open>toc_indicators\<close>: whether any of the six \<open>toc_patterns\<close> is found;
  \<^item> \<open>page_number_lines\<close>: \<open>len(re.findall(page_number_pattern, text, re.MULTILINE))\<close>.
\<close>

record page =
  lang :: "string option"
  word_count :: nat
  title_words :: bool
  notices_words :: bool
  toc_indicators :: bool
  page_number_lines :: nat

text \<open>
  A table-of-contents entry as \<open>extract_table_of_contents\<close> returns it:
  \<open>(title, page number, depth)\<close>. The page number is what the document's outline or the
  printed contents line says; nothing relates it to the number of pages.
\<close>

type_synonym toc_entry = "string \<times> int \<times> int"

definition toc_title :: "toc_entry \<Rightarrow> string" where
  "toc_title e = fst e"

definition toc_page :: "toc_entry \<Rightarrow> int" where
  "toc_page e = fst (snd e)"

definition toc_depth :: "toc_entry \<Rightarrow> int" where
  "toc_depth e = snd (snd e)"

record document =
  pages :: "page list"
  toc :: "toc_entry list"

record detector =
  pages_to_remove :: "int set"
  in_toc_section :: bool
  consecutive_toc_count :: nat

definition detector_init :: detector where
  "detector_init = \<lparr>pages_to_remove = {}, in_toc_section = False, consecutive_toc_count = 0\<rparr>"

text \<open>The body of \<open>for page_num in range(len(doc))\<close>; \<open>pn\<close> is the loop's \<open>page_num\<close>.\<close>

definition page_step :: "detector \<Rightarrow> nat \<times> page \<Rightarrow> detector" where
  "page_step s np =
     (case np of (pn, p) \<Rightarrow>
        if lang p = Some ''en'' then
          (let s1 = (if pn = 0 \<and> (word_count p < 100 \<or> title_words p)
                     then s\<lparr>pages_to_remove := insert (int pn) (pages_to_remove s)\<rparr>
                     else s);
               s2 = (if notices_words p \<and> pn \<le> 10
                     then s1\<lparr>pages_to_remove := insert (int pn) (pages_to_remove s1)\<rparr>
                     else s1);
               has_page_numbers = (page_number_lines p > 2)
           in if (toc_indicators p \<or> (in_toc_section s2 \<and> has_page_numbers)) \<and> pn < 20
              then s2\<lparr>pages_to_remove :=
                          (if in_toc_section s2
                           then insert (int pn) (pages_to_remove s2)
                           else insert (int pn) (pages_to_remove s2) \<union> {0..<int pn}),
                        in_toc_section := True,
                        consecutive_toc_count := consecutive_toc_count s2 + 1\<rparr>
              else s2\<lparr>consecutive_toc_count := 0, in_toc_section := False\<rparr>)
        else s\<lparr>pages_to_remove := insert (int pn) (pages_to_remove s)\<rparr>)"

definition page_loop :: "page list \<Rightarrow> detector" where
  "page_loop ps = foldl page_step detector_init (zip [0..<length ps] ps)"

text \<open>
  \<open>re.search(r'other resources|additional resources|acronyms|abbreviations|abstract|index|recycling|specifications', item[0])\<close>:
  the pattern is an alternation of literals, so it is found exactly when one of them
  occurs in the title as it stands (the title is not lower-cased).
\<close>

fun starts_with :: "string \<Rightarrow> string \<Rightarrow> bool" where
  "starts_with [] s = True"
| "starts_with (c # w) [] = False"
| "starts_with (c # w) (d # s) = (c = d \<and> starts_with w s)"

fun contains :: "string \<Rightarrow> string \<Rightarrow> bool" where
  "contains w [] = (w = [])"
| "contains w (c # s) = (starts_with w (c # s) \<or> contains w s)"

definition denylist :: "string list" where
  "denylist = [''other resources'', ''additional resources'', ''acronyms'', ''abbreviations'',
               ''abstract'', ''index'', ''recycling'', ''specifications'']"

definition matches_denylist :: "string \<Rightarrow> bool" where
  "matches_denylist title = list_ex (\<lambda>w. contains w title) denylist"

text \<open>
  The inner loop \<open>for j in range(i+1, len(toc))\<close> with its test
  \<open>not toc[j][-1] == item[-1] or toc[j][-1] > item[-1]\<close>; \<open>d\<close> is \<open>item[-1]\<close>.
\<close>

fun later_entries :: "int \<Rightarrow> toc_entry list \<Rightarrow> int set \<Rightarrow> int set" where
  "later_entries d [] S = S"
| "later_entries d (e # es) S =
     later_entries d es
       (if \<not> toc_depth e = d \<or> toc_depth e > d then insert (toc_page e) S else S)"

text \<open>
  The outer loop \<open>for i, item in enumerate(toc)\<close>: the entries after \<open>item\<close> are the rest
  of the list, and \<open>i+1 == len(toc)\<close> says that the rest is empty. \<open>n\<close> is \<open>len(doc)\<close>.
\<close>

fun toc_loop :: "nat \<Rightarrow> toc_entry list \<Rightarrow> int set \<Rightarrow> int set" where
  "toc_loop n [] S = S"
| "toc_loop n (item # rest) S =
     toc_loop n rest
       (if matches_denylist (toc_title item) then
          (let S1 = later_entries (toc_depth item) rest (insert (toc_page item) S)
           in if rest = [] then S1 \<union> {toc_page item..<int n} else S1)
        else S)"

definition detect_irrelevant_pages :: "document \<Rightarrow> int set" where
  "detect_irrelevant_pages doc =
     toc_loop (length (pages doc)) (toc doc) (pages_to_remove (page_loop (pages doc)))"

section \<open>Document linearizer: \<open>process_pdf\<close> in \<open>src/ingestor/pdf_util.py\<close>\<close>

text \<open>
  \<open>process_pdf\<close> walks \<open>result.document.iterate_items()\<close>, a stream of \<open>(item, level)\<close>
  pairs made by the PDF converter. An item is given by what the loop reads of it: its
  class (for the \<open>isinstance\<close> tests), its label, its text, \<open>prov[0].page_no\<close>, and for a
  list item \<open>enumerated\<close> and \<open>marker\<close>; \<open>table_markdown\<close> stands for
  \<open>item.export_to_dataframe().to_markdown()\<close> of a table item.
\<close>

datatype pyclass = TextItem | SectionHeaderItem | ListItem | GroupItem | TableItem | PictureItem

datatype label = TITLE | SECTION_HEADER | LIST_ITEM | PARAGRAPH | TABLE | PICTURE
  | LIST | ORDERED_LIST | CHAPTER

text \<open>
  \<open>isinstance\<close>: in the converter's data model \<open>SectionHeaderItem\<close> and \<open>ListItem\<close> are
  subclasses of \<open>TextItem\<close>.
\<close>

fun isinstance :: "pyclass \<Rightarrow> pyclass \<Rightarrow> bool" where
  "isinstance SectionHeaderItem TextItem = True"
| "isinstance ListItem TextItem = True"
| "isinstance c c' = (c = c')"

record item =
  cls :: pyclass
  item_label :: label
  item_text :: string
  prov_page_no :: int
  enumerated :: bool
  marker :: string
  table_markdown :: string

text \<open>
  \<open>str.strip()\<close> removes leading and trailing whitespace. A character is a code point
  below 256; of those \<open>str.isspace()\<close> holds for the codes 9 to 13, 28 to 32, 133 and
  160.
\<close>

definition isspace :: "char \<Rightarrow> bool" where
  "isspace c = ((9 \<le> (of_char c :: nat) \<and> (of_char c :: nat) \<le> 13)
              \<or> (28 \<le> (of_char c :: nat) \<and> (of_char c :: nat) \<le> 32)
              \<or> (of_char c :: nat) = 133 \<or> (of_char c :: nat) = 160)"

definition strip :: "string \<Rightarrow> string" where
  "strip s = rev (dropWhile isspace (rev (dropWhile isspace s)))"

text \<open>\<open>sep.join(xs)\<close>\<close>

fun join :: "string \<Rightarrow> string list \<Rightarrow> string" where
  "join sep [] = []"
| "join sep [x] = x"
| "join sep (x # y # ys) = x @ sep @ join sep (y # ys)"

record linearizer =
  list_nesting_level :: int
  previous_level :: int
  in_list :: bool
  current_list :: "string list"
  current_list_page :: "int option"
  elements :: "(string \<times> int option) list"

definition linearizer_init :: linearizer where
  "linearizer_init = \<lparr>list_nesting_level = 0, previous_level = 0, in_list = False,
     current_list = [], current_list_page = None, elements = []\<rparr>"

definition indent :: int where
  "indent = 4"

text \<open>
  \<open>stringify_list(current_list, elements, current_list_page)\<close> appends the joined buffer
  to \<open>elements\<close> and clears the buffer; it returns \<open>(current_list, elements)\<close>.
\<close>

definition stringify_list ::
  "string list \<Rightarrow> (string \<times> int option) list \<Rightarrow> int option
     \<Rightarrow> string list \<times> (string \<times> int option) list" where
  "stringify_list cl els clp = ([], els @ [(join [CHR 0x0A] cl, clp)])"

text \<open>
  The call site, which every branch repeats:
  \<open>current_list, elements = stringify_list(current_list, elements, current_list_page)\<close>
  followed by \<open>current_list_page = None\<close>.
\<close>

definition flush :: "linearizer \<Rightarrow> linearizer" where
  "flush s =
     (case stringify_list (current_list s) (elements s) (current_list_page s) of
        (cl, els) \<Rightarrow> s\<lparr>current_list := cl, elements := els, current_list_page := None\<rparr>)"

text \<open>\<open>if current_list and in_list: (flush)\<close> and then \<open>in_list = False\<close>\<close>

definition close_list :: "linearizer \<Rightarrow> linearizer" where
  "close_list s = (if current_list s \<noteq> [] \<and> in_list s then flush s else s)\<lparr>in_list := False\<rparr>"

definition emit :: "string \<Rightarrow> int \<Rightarrow> linearizer \<Rightarrow> linearizer" where
  "emit txt pg s = s\<lparr>elements := elements s @ [(txt, Some pg)]\<rparr>"

text \<open>
  The text of a list item's line (the list-item branch): \<open>lvl\<close> is \<open>list_nesting_level\<close>.
  Python's \<open>" " * n\<close> is empty for \<open>n \<le> 0\<close>.
\<close>

definition list_item_line :: "int \<Rightarrow> item \<Rightarrow> string" where
  "list_item_line lvl it =
     (let list_indent = replicate (nat (indent * (lvl - 1))) CHR '' '';
          mk = (if enumerated it then marker it @ '' '' else ''- '')
      in strip (list_indent @ mk @ item_text it))"

text \<open>The section header's marker; \<open>"#" * n\<close> is empty for \<open>n \<le> 0\<close>.\<close>

definition header_marker :: "int \<Rightarrow> string" where
  "header_marker level =
     (let m = replicate (nat (min level 6)) CHR ''#'' @ '' ''
      in if length m < 3 then ''## '' else m)"

text \<open>
  One iteration of \<open>for item, level in result.document.iterate_items()\<close>.
  \<open>export_labels\<close> is the library's \<open>DEFAULT_EXPORT_LABELS\<close>; \<open>pages_to_ignore\<close> is the
  set in force in the loop (the argument, with the pages of full-page tables added
  unless \<open>big_tables\<close> is set).
\<close>

definition item_step ::
  "label list \<Rightarrow> int set \<Rightarrow> bool \<Rightarrow> linearizer \<Rightarrow> item \<times> int \<Rightarrow> linearizer" where
  "item_step export_labels pages_to_ignore tables s0 il =
     (case il of (it, level) \<Rightarrow>
       (let s1 = (if level < previous_level s0
                  then s0\<lparr>list_nesting_level :=
                            max 0 (list_nesting_level s0 - (previous_level s0 - level))\<rparr>
                  else s0);
            s2 = s1\<lparr>previous_level := level\<rparr>;
            s = (if length (elements s2) > 0
                    \<and> \<not> (isinstance (cls it) ListItem \<or> isinstance (cls it) GroupItem)
                    \<and> in_list s2
                 then (if current_list s2 \<noteq> [] then flush s2 else s2)\<lparr>in_list := False\<rparr>
                 else s2)
        in if \<not> List.member export_labels (item_label it) then s
           else if (prov_page_no it - 1) \<in> pages_to_ignore then s
           else if isinstance (cls it) TextItem \<and> item_label it = TITLE then
             emit (''# '' @ item_text it) (prov_page_no it) (close_list s)
           else if (isinstance (cls it) TextItem \<and> item_label it = SECTION_HEADER)
                   \<or> isinstance (cls it) SectionHeaderItem then
             emit (header_marker level @ item_text it) (prov_page_no it) (close_list s)
           else if isinstance (cls it) GroupItem then
             (if item_label it = LIST \<or> item_label it = ORDERED_LIST
              then s\<lparr>list_nesting_level := list_nesting_level s + 1,
                     in_list := True,
                     current_list_page := Some (prov_page_no it)\<rparr>
              else emit (item_text it) (prov_page_no it) s)
           else if isinstance (cls it) ListItem \<and> item_label it = LIST_ITEM then
             s\<lparr>in_list := True,
               current_list_page := Some (prov_page_no it),
               current_list := current_list s @ [list_item_line (list_nesting_level s) it]\<rparr>
           else if isinstance (cls it) TextItem then
             emit (item_text it) (prov_page_no it) (close_list s)
           else if isinstance (cls it) TableItem \<and> tables then
             emit (table_markdown it) (prov_page_no it) (close_list s)
           else s))"

text \<open>
  The loop and the lines after it: \<open>if current_list:
  elements.append(("".join(current_list), current_list_page))\<close>.
\<close>

definition process_pdf ::
  "label list \<Rightarrow> int set \<Rightarrow> bool \<Rightarrow> (item \<times> int) list \<Rightarrow> (string \<times> int option) list" where
  "process_pdf export_labels pages_to_ignore tables items =
     (let s = foldl (item_step export_labels pages_to_ignore tables) linearizer_init items
      in if current_list s \<noteq> []
         then elements s @ [(join [] (current_list s), current_list_page s)]
         else elements s)"

section \<open>Store access: \<open>src/coordinator/utils.py\<close> and \<open>src/ingestor/utils.py\<close>\<close>

text \<open>
  The database and the embedding service are outside the code; a run is given by what
  each call does: it returns, or it raises. \<open>None\<close> is a call that returned (where it has
  no result that matters), \<open>Some e\<close> and \<open>Inl e\<close> a call that raised \<open>e\<close>.
  \<open>client.close()\<close> is taken to return.
\<close>

datatype exn = HTTPException | DatabaseError | EmbeddingError | UnboundLocalError

datatype connection = NotAcquired | Open | Closed

type_synonym row = string

record store_run =
  get_psycopg_client :: "exn option"
  register_vector :: "exn option"
  generate_embeddings :: "exn option"
  execute_manuals :: "exn + row list"
  execute_tickets :: "exn + row list"
  execute_ddl :: "exn option"
  executemany :: "exn option"

record retrieved =
  tickets :: "row list"
  manuals :: "row list"

text \<open>The body of the \<open>try\<close> in \<open>retrieve_context\<close>: the first call that raises ends it.\<close>

definition retrieve_body :: "store_run \<Rightarrow> exn + retrieved" where
  "retrieve_body w =
     (case register_vector w of Some e \<Rightarrow> Inl e | None \<Rightarrow>
      case generate_embeddings w of Some e \<Rightarrow> Inl e | None \<Rightarrow>
      case execute_manuals w of Inl e \<Rightarrow> Inl e | Inr ms \<Rightarrow>
      case execute_tickets w of Inl e \<Rightarrow> Inl e | Inr ts \<Rightarrow>
      Inr \<lparr>tickets = ts, manuals = ms\<rparr>)"

text \<open>
  \<open>retrieve_context\<close>: the client is acquired before the \<open>try\<close>; \<open>except Exception as e:
  raise e\<close>; \<open>finally: client.close()\<close>. The result is what the caller gets and the state
  in which the connection is left.
\<close>

definition retrieve_context :: "store_run \<Rightarrow> (exn + retrieved) \<times> connection" where
  "retrieve_context w =
     (case get_psycopg_client w of
        Some e \<Rightarrow> (Inl e, NotAcquired)
      | None \<Rightarrow>
          (case retrieve_body w of
             Inl e \<Rightarrow> (Inl e, Closed)
           | Inr r \<Rightarrow> (Inr r, Closed)))"

text \<open>
  The statements of \<open>add_manual_chunks_to_db\<close> after the client is acquired. \<open>chunks\<close>
  says for each chunk whether it brings its embedding; one that does not calls
  \<open>generate_embeddings\<close>.
\<close>

definition insert_body :: "store_run \<Rightarrow> bool list \<Rightarrow> exn option" where
  "insert_body w chunks =
     (case execute_ddl w of Some e \<Rightarrow> Some e | None \<Rightarrow>
      case register_vector w of Some e \<Rightarrow> Some e | None \<Rightarrow>
      case (if list_ex (\<lambda>has_embedding. \<not> has_embedding) chunks
            then generate_embeddings w else None) of Some e \<Rightarrow> Some e | None \<Rightarrow>
      executemany w)"

text \<open>
  \<open>add_manual_chunks_to_db\<close>: the client is acquired inside the \<open>try\<close>; \<open>except Exception
  as e: print(e)\<close>; \<open>finally: client.close()\<close>. When acquiring the client raised, the name
  \<open>client\<close> is unbound in the \<open>finally\<close> block, and reading it raises
  \<open>UnboundLocalError\<close>. The result is what the caller gets (\<open>Inr ()\<close> is a normal
  return), the state of the connection, and what was printed.
\<close>

definition add_manual_chunks_to_db ::
  "store_run \<Rightarrow> bool list \<Rightarrow> (exn + unit) \<times> connection \<times> exn list" where
  "add_manual_chunks_to_db w chunks =
     (case get_psycopg_client w of
        Some e \<Rightarrow> (Inl UnboundLocalError, NotAcquired, [e])
      | None \<Rightarrow>
          (case insert_body w chunks of
             Some e \<Rightarrow> (Inr (), Closed, [e])
           | None \<Rightarrow> (Inr (), Closed, [])))"

section \<open>Hybrid query: \<open>generate_sql_query\<close> in \<open>src/coordinator/utils.py\<close>\<close>

text \<open>
  Modelled from the spec: the SQL function \<open>rrf_score\<close>, which the generated query calls
  (\<open>sum(rrf_score(searches.rank::int))\<close>) and which is defined in the database, not in
  the repository. The spec gives it as \<open>1/(k + rank)\<close> for a fixed constant \<open>k\<close>
  (for example 60).
\<close>

definition rrf_score :: "int \<Rightarrow> int \<Rightarrow> rat" where
  "rrf_score k rank = 1 / of_int (k + rank)"

text \<open>
  The query that \<open>generate_sql_query\<close> builds, read as a relation. Each branch is a
  list of \<open>(id, rank)\<close> rows in rank order (the vector branch and the lexical branch);
  each is cut by \<open>ORDER BY rank LIMIT 40\<close>, the two are put together by \<open>UNION ALL\<close>,
  and \<open>GROUP BY searches.id, ...\<close> with \<open>sum(rrf_score(searches.rank::int)) AS score\<close>
  gives every id the sum over its rows.
\<close>

type_synonym ranked = "nat \<times> int"

definition searches :: "ranked list \<Rightarrow> ranked list \<Rightarrow> ranked list" where
  "searches vector lexical = take 40 vector @ take 40 lexical"

definition score :: "int \<Rightarrow> ranked list \<Rightarrow> ranked list \<Rightarrow> nat \<Rightarrow> rat" where
  "score k vector lexical i =
     sum_list (map (\<lambda>r. rrf_score k (snd r)) (filter (\<lambda>r. fst r = i) (searches vector lexical)))"

section \<open>Notions used in the statements and proofs\<close>

subsection \<open>Chunker\<close>

text \<open>The dict that a sequence of assignments builds, starting from the empty dict.\<close>

definition assign_all :: "(string \<times> int option) list \<Rightarrow> pydict" where
  "assign_all xs = foldl (\<lambda>d kv. dict_assign d (fst kv) (snd kv)) [] xs"

text \<open>A text without its space characters.\<close>

definition unspaced :: "string \<Rightarrow> string" where
  "unspaced s = filter (\<lambda>c. c \<noteq> CHR '' '') s"

text \<open>
  Invariant of the loop: \<open>page_num\<close> is \<open>None\<close> only while nothing has been
  accumulated.
\<close>

definition acc_ok :: "chunker \<Rightarrow> bool" where
  "acc_ok s = (page_num s = None \<longrightarrow> current_string s = [])"

definition flat :: "chunker \<Rightarrow> string" where
  "flat s = unspaced (concat (map fst (sealed s)) @ current_string s)"



text \<open>
  How the sealed accumulators are made of the input. A part is a block of consecutive
  input segments together with what the accumulator held when the block began:
  \<open>Some seed\<close> when it began with a seed to which the block's texts were appended, each
  after a space (the empty accumulator of the start, or with overlap the previously
  appended text), \<open>None\<close> when the block's first text itself began the accumulator (a
  heading, or a restart without overlap).
\<close>

type_synonym part = "string option \<times> segment list"

definition spaced :: "string list \<Rightarrow> string" where
  "spaced ts = concat (map (\<lambda>t. '' '' @ t) ts)"

fun render :: "part \<Rightarrow> string" where
  "render (Some seed, blk) = seed @ spaced (map fst blk)"
| "render (None, []) = []"
| "render (None, seg # blk) = fst seg @ spaced (map fst blk)"

text \<open>
  A seed is empty or, with overlap, the text of a segment of an earlier block
  (\<open>seen\<close>); a block without a seed is not empty.
\<close>

definition part_ok :: "bool \<Rightarrow> string set \<Rightarrow> part \<Rightarrow> bool" where
  "part_ok ov seen p =
     (case fst p of None \<Rightarrow> snd p \<noteq> [] | Some seed \<Rightarrow> seed = [] \<or> (ov \<and> seed \<in> seen))"

fun seeds_ok :: "bool \<Rightarrow> string set \<Rightarrow> part list \<Rightarrow> bool" where
  "seeds_ok ov seen [] = True"
| "seeds_ok ov seen (p # ps) = (part_ok ov seen p \<and> seeds_ok ov (seen \<union> fst ` set (snd p)) ps)"

text \<open>
  Invariant of the loop after the segments \<open>pre\<close>: the sealed accumulators are the
  parts \<open>ps\<close>, the accumulator is the part \<open>cur\<close>.
\<close>

definition order_inv ::
  "bool \<Rightarrow> segment list \<Rightarrow> chunker \<Rightarrow> part list \<Rightarrow> part \<Rightarrow> bool" where
  "order_inv ov pre s ps cur =
     (concat (map snd ps) @ snd cur = pre
      \<and> map fst (sealed s) = map render ps
      \<and> current_string s = render cur
      \<and> seeds_ok ov {} (ps @ [cur])
      \<and> last_str s \<in> insert [] (fst ` set pre)
      \<and> (page_num s = None \<longrightarrow> snd cur = []))"

subsection \<open>Detector\<close>

text \<open>What one matching entry adds: the update of the outer loop's body, as a set.\<close>

definition entry_exclusions :: "nat \<Rightarrow> toc_entry \<Rightarrow> toc_entry list \<Rightarrow> int set" where
  "entry_exclusions n item rest =
     insert (toc_page item) (toc_page ` {e \<in> set rest. toc_depth e \<noteq> toc_depth item})
       \<union> (if rest = [] then {toc_page item..<int n} else {})"

text \<open>
  An English page that no heuristic matches, and the same page when the language
  detector raises on it.
\<close>

definition plain_page :: page where
  "plain_page = \<lparr>lang = Some ''en'', word_count = 300, title_words = False,
     notices_words = False, toc_indicators = False, page_number_lines = 0\<rparr>"

definition undetected_page :: page where
  "undetected_page = plain_page\<lparr>lang := None\<rparr>"

text \<open>
  The table of contents of the spec's example, and the same with the second title
  written as the pattern has it.
\<close>

definition spec_toc :: "toc_entry list" where
  "spec_toc = [(''Intro'', 1, 1), (''Resources'', 5, 1), (''Specs'', 8, 2), (''Index'', 10, 1)]"

definition lower_toc :: "toc_entry list" where
  "lower_toc =
     [(''Intro'', 1, 1), (''other resources'', 5, 1), (''Specs'', 8, 2), (''Index'', 10, 1)]"

subsection \<open>Linearizer\<close>

definition bullet :: "string \<Rightarrow> int \<Rightarrow> item" where
  "bullet t p = \<lparr>cls = ListItem, item_label = LIST_ITEM, item_text = t, prov_page_no = p,
     enumerated = False, marker = [], table_markdown = []\<rparr>"

definition plain_text :: "string \<Rightarrow> int \<Rightarrow> item" where
  "plain_text t p = \<lparr>cls = TextItem, item_label = PARAGRAPH, item_text = t, prov_page_no = p,
     enumerated = False, marker = [], table_markdown = []\<rparr>"

definition item_labels :: "label list" where
  "item_labels = [TITLE, SECTION_HEADER, LIST_ITEM, PARAGRAPH, TABLE, PICTURE]"

subsection \<open>Store\<close>

text \<open>A run in which every call returns, and one in which the bulk insert raises.\<close>

definition run_ok :: store_run where
  "run_ok = \<lparr>get_psycopg_client = None, register_vector = None, generate_embeddings = None,
     execute_manuals = Inr [''m''], execute_tickets = Inr [''t''], execute_ddl = None,
     executemany = None\<rparr>"

definition run_insert_fails :: store_run where
  "run_insert_fails = run_ok\<lparr>executemany := Some DatabaseError\<rparr>"

definition run_query_fails :: store_run where
  "run_query_fails = run_ok\<lparr>execute_tickets := Inl DatabaseError\<rparr>"

section \<open>The chunker's properties\<close>

lemmas chunk_eval = naive_chunking_def sealed_chunks_def chunk_loop_def chunk_step_def seal_def
  is_header_def max_len_def chunker_init_def mk_chunk_def

subsection \<open>The dict and the history of assignments\<close>

lemma keys_dict_assign:
  "map fst (dict_assign d k v) = (if k \<in> set (map fst d) then map fst d else map fst d @ [k])"
  by (induction d k v rule: dict_assign.induct) auto

lemma map_of_dict_assign: "map_of (dict_assign d k v) = (map_of d)(k \<mapsto> v)"
  by (induction d k v rule: dict_assign.induct) (auto simp: fun_eq_iff)

lemma dict_assign_fresh: "k \<notin> set (map fst d) \<Longrightarrow> dict_assign d k v = d @ [(k, v)]"
  by (induction d k v rule: dict_assign.induct) auto

lemma assign_all_snoc: "assign_all (xs @ [kv]) = dict_assign (assign_all xs) (fst kv) (snd kv)"
  by (simp add: assign_all_def)

lemma keys_assign_all: "map fst (assign_all xs) = rev (remdups (rev (map fst xs)))"
proof (induction xs rule: rev_induct)
  case Nil
  show ?case by (simp add: assign_all_def)
next
  case (snoc kv xs)
  then show ?case by (simp add: assign_all_snoc keys_dict_assign)
qed

lemma map_of_assign_all: "map_of (assign_all xs) = map_of (rev xs)"
proof (induction xs rule: rev_induct)
  case Nil
  show ?case by (simp add: assign_all_def)
next
  case (snoc kv xs)
  then show ?case by (cases kv) (simp add: assign_all_snoc map_of_dict_assign)
qed

lemma assign_all_distinct: "distinct (map fst xs) \<Longrightarrow> assign_all xs = xs"
proof (induction xs rule: rev_induct)
  case Nil
  show ?case by (simp add: assign_all_def)
next
  case (snoc kv xs)
  then show ?case by (cases kv) (simp add: assign_all_snoc dict_assign_fresh)
qed

lemma seal_dict:
  "output_dict s = assign_all (sealed s) \<Longrightarrow> output_dict (seal s) = assign_all (sealed (seal s))"
  by (simp add: seal_def assign_all_snoc)

lemma step_dict:
  "output_dict s = assign_all (sealed s) \<Longrightarrow>
   output_dict (chunk_step ov s seg) = assign_all (sealed (chunk_step ov s seg))"
  by (cases seg) (simp add: chunk_step_def seal_def assign_all_snoc)

lemma foldl_dict:
  "output_dict s = assign_all (sealed s) \<Longrightarrow>
   output_dict (foldl (chunk_step ov) s segs) = assign_all (sealed (foldl (chunk_step ov) s segs))"
  by (induction segs arbitrary: s) (simp_all add: step_dict)

lemma loop_dict: "output_dict (chunk_loop ov segs) = assign_all (sealed (chunk_loop ov segs))"
  unfolding chunk_loop_def by (rule foldl_dict) (simp add: chunker_init_def assign_all_def)

lemma naive_chunking_assign_all:
  "naive_chunking segs ov = map mk_chunk (assign_all (sealed_chunks segs ov))"
  by (simp add: naive_chunking_def sealed_chunks_def seal_dict loop_dict)


subsection \<open>The loop's invariants\<close>

lemma step_page: "page_num (chunk_step ov s seg) \<noteq> None"
  by (cases seg) (simp add: chunk_step_def seal_def split: option.splits)

lemma step_acc_ok: "acc_ok (chunk_step ov s seg)"
  by (simp add: acc_ok_def step_page)

lemma foldl_acc_ok: "acc_ok s \<Longrightarrow> acc_ok (foldl (chunk_step ov) s segs)"
  by (induction segs arbitrary: s) (simp_all add: step_acc_ok)

lemma loop_acc_ok: "acc_ok (chunk_loop ov segs)"
  unfolding chunk_loop_def by (rule foldl_acc_ok) (simp add: acc_ok_def chunker_init_def)

lemma loop_snoc: "chunk_loop ov (pre @ [seg]) = chunk_step ov (chunk_loop ov pre) seg"
  by (simp add: chunk_loop_def)

lemma loop_append:
  "chunk_loop ov (pre @ rest) = foldl (chunk_step ov) (chunk_loop ov pre) rest"
  by (simp add: chunk_loop_def)





lemma unspaced_append: "unspaced (a @ b) = unspaced a @ unspaced b"
  by (simp add: unspaced_def)

lemma step_flat:
  "acc_ok s \<Longrightarrow> flat (chunk_step False s (t, n)) = flat s @ unspaced t"
  by (simp add: chunk_step_def seal_def flat_def acc_ok_def unspaced_def)

lemma foldl_flat:
  "acc_ok s \<Longrightarrow>
   flat (foldl (chunk_step False) s segs) = flat s @ unspaced (concat (map fst segs))"
proof (induction segs arbitrary: s)
  case Nil
  show ?case by (simp add: unspaced_def)
next
  case (Cons seg segs)
  obtain t n where seg: "seg = (t, n)" by (cases seg)
  have "flat (foldl (chunk_step False) (chunk_step False s seg) segs)
        = flat (chunk_step False s seg) @ unspaced (concat (map fst segs))"
    by (rule Cons.IH) (rule step_acc_ok)
  then show ?case using Cons.prems by (simp add: seg step_flat unspaced_append)
qed

lemma sealed_flat:
  "unspaced (concat (map fst (sealed_chunks segs False))) = unspaced (concat (map fst segs))"
proof -
  have "flat (chunk_loop False segs) = flat chunker_init @ unspaced (concat (map fst segs))"
    unfolding chunk_loop_def by (rule foldl_flat) (simp add: acc_ok_def chunker_init_def)
  then show ?thesis
    by (simp add: sealed_chunks_def seal_def flat_def chunker_init_def unspaced_def)
qed

text \<open>The accumulator is the beginning of the next chunk that is sealed.\<close>

lemma sealed_next:
  "acc_ok s \<Longrightarrow>
   \<exists>w v ys. sealed (seal (foldl (chunk_step ov) s segs))
             = sealed s @ (current_string s @ w, v) # ys"
proof (induction segs arbitrary: s)
  case Nil
  show ?case by (simp add: seal_def)
next
  case (Cons seg segs)
  obtain t n where seg: "seg = (t, n)" by (cases seg)
  let ?s' = "chunk_step ov s seg"
  from Cons.IH [OF step_acc_ok, of ov s seg]
  obtain w v ys where IH: "sealed (seal (foldl (chunk_step ov) ?s' segs))
      = sealed ?s' @ (current_string ?s' @ w, v) # ys" by blast
  have "\<exists>w' v' ys'. sealed ?s' @ (current_string ?s' @ w, v) # ys
      = sealed s @ (current_string s @ w', v') # ys'"
    using Cons.prems by (auto simp: seg chunk_step_def seal_def acc_ok_def)
  then show ?case using IH by simp
qed

text \<open>The sealed accumulators as blocks of the input.\<close>

lemma spaced_snoc: "spaced (ts @ [t]) = spaced ts @ '' '' @ t"
  by (simp add: spaced_def)

lemma render_snoc:
  "part_ok ov seen (sd, blk) \<Longrightarrow> render (sd, blk @ [seg]) = render (sd, blk) @ '' '' @ fst seg"
  by (cases sd; cases blk) (simp_all add: part_ok_def spaced_snoc spaced_def)

lemma seeds_ok_snoc:
  "seeds_ok ov seen (ps @ [p])
     = (seeds_ok ov seen ps \<and> part_ok ov (seen \<union> fst ` set (concat (map snd ps))) p)"
  by (induction ps arbitrary: seen) (auto simp: Un_assoc image_Un)

lemma part_ok_block: "part_ok ov seen (sd, blk) \<Longrightarrow> part_ok ov seen (sd, blk @ [seg])"
  by (cases sd) (simp_all add: part_ok_def)

lemma seeds_ok_snoc2:
  assumes "seeds_ok ov {} (ps @ [c])" and "part_ok ov (fst ` set (concat (map snd ps) @ snd c)) p"
  shows "seeds_ok ov {} (ps @ [c, p])"
proof -
  have "seeds_ok ov {} ((ps @ [c]) @ [p])"
    unfolding seeds_ok_snoc [of ov "{}" "ps @ [c]" p] using assms by (simp add: image_Un)
  then show ?thesis by simp
qed

lemma step_order_inv:
  assumes "order_inv ov pre s ps cur"
  shows "\<exists>ps' cur'. order_inv ov (pre @ [seg]) (chunk_step ov s seg) ps' cur'"
proof -
  obtain t n where seg: "seg = (t, n)" by (cases seg)
  obtain sd blk where cur: "cur = (sd, blk)" by (cases cur)
  from assms have pre: "concat (map snd ps) @ blk = pre"
    and sl: "map fst (sealed s) = map render ps"
    and cs: "current_string s = render (sd, blk)"
    and so2: "seeds_ok ov {} (ps @ [(sd, blk)])"
    and ls: "last_str s \<in> insert [] (fst ` set pre)"
    and pn: "page_num s = None \<longrightarrow> blk = []"
    by (simp_all add: order_inv_def cur)
  from so2 have so: "seeds_ok ov {} ps"
    and po: "part_ok ov (fst ` set (concat (map snd ps))) (sd, blk)"
    by (simp_all add: seeds_ok_snoc)
  have new_block: "seeds_ok ov {} (ps @ [(sd, blk), (sd', [seg])])"
    if "part_ok ov (fst ` set pre) (sd', [seg])" for sd'
    using seeds_ok_snoc2 [OF so2, of "(sd', [seg])"] that pre by simp
  have lsn: "last_str s \<in> insert [] (fst ` set (pre @ [seg]))" using ls by auto
  show ?thesis
  proof (cases "is_header t")
    case True
    have pk: "part_ok ov seen (None, [seg])" for seen by (simp add: part_ok_def)
    show ?thesis
    proof (cases "page_num s = None")
      case pnone: True
      then have b: "blk = []" using pn by simp
      have "seeds_ok ov {} (ps @ [(None, [seg])])"
        using so pk by (simp add: seeds_ok_snoc)
      then have "order_inv ov (pre @ [seg]) (chunk_step ov s seg) ps (None, [seg])"
        using True pnone pre sl lsn b
        by (simp add: order_inv_def seg chunk_step_def spaced_def)
      then show ?thesis by blast
    next
      case False
      then have "order_inv ov (pre @ [seg]) (chunk_step ov s seg) (ps @ [(sd, blk)]) (None, [seg])"
        using True pre sl cs lsn new_block [OF pk]
        by (simp add: order_inv_def seg chunk_step_def seal_def spaced_def)
      then show ?thesis by blast
    qed
  next
    case nh: False
    show ?thesis
    proof (cases "length (current_string s) + length t \<le> max_len")
      case True
      have r: "render (sd, blk @ [seg]) = render (sd, blk) @ '' '' @ t"
        using render_snoc [OF po, of seg] by (simp add: seg)
      have "seeds_ok ov {} (ps @ [(sd, blk @ [seg])])"
        using so part_ok_block [OF po, of seg] by (simp add: seeds_ok_snoc)
      then have "order_inv ov (pre @ [seg]) (chunk_step ov s seg) ps (sd, blk @ [seg])"
        using nh True pre sl cs r lsn
        by (simp add: order_inv_def seg chunk_step_def split: option.splits)
      then show ?thesis by blast
    next
      case False
      have pk: "part_ok ov (fst ` set pre) (if ov then Some (last_str s) else None, [seg])"
        using ls by (auto simp: part_ok_def)
      have "order_inv ov (pre @ [seg]) (chunk_step ov s seg) (ps @ [(sd, blk)])
              (if ov then Some (last_str s) else None, [seg])"
        using nh False pre sl cs lsn new_block [OF pk]
        by (simp add: order_inv_def seg chunk_step_def seal_def spaced_def)
      then show ?thesis by blast
    qed
  qed
qed

lemma loop_order_inv: "\<exists>ps cur. order_inv ov segs (chunk_loop ov segs) ps cur"
proof (induction segs rule: rev_induct)
  case Nil
  have "order_inv ov [] (chunk_loop ov []) [] (Some [], [])"
    by (simp add: order_inv_def chunk_loop_def chunker_init_def part_ok_def spaced_def)
  then show ?case by blast
next
  case (snoc seg segs)
  then obtain ps cur where "order_inv ov segs (chunk_loop ov segs) ps cur" by blast
  from step_order_inv [OF this, of seg] show ?case by (simp add: chunk_loop_def)
qed

lemma sealed_chunks_parts:
  "\<exists>ps. concat (map snd ps) = segs \<and> seeds_ok ov {} ps
        \<and> map fst (sealed_chunks segs ov) = map render ps"
proof -
  obtain ps cur where inv: "order_inv ov segs (chunk_loop ov segs) ps cur"
    using loop_order_inv by blast
  then have "concat (map snd (ps @ [cur])) = segs \<and> seeds_ok ov {} (ps @ [cur])
        \<and> map fst (sealed_chunks segs ov) = map render (ps @ [cur])"
    by (simp add: order_inv_def sealed_chunks_def seal_def)
  then show ?thesis by blast
qed

lemma neq_by_length: "length a \<noteq> length b \<Longrightarrow> a \<noteq> b"
  by auto

subsection \<open>Chunk size\<close>




subsection \<open>Heading boundary\<close>

text \<open>
  Claim C4, as amended. A segment of more than one character whose text begins with
  \<open>#\<close> starts a new chunk: after it the accumulator is exactly its text and the page is
  its page; the accumulator before it, if non-empty, has been sealed as it was, with
  its own page; and the next chunk that is sealed begins with the heading's text. (A
  segment that consists of the one character \<open>#\<close> is not a heading for the source's test
  \<open>len(t) > 1\<close>.)
\<close>

theorem heading_starts_new_chunk:
  assumes "1 < length t" and "take 1 t = ''#''"
  shows "current_string (chunk_loop ov (pre @ [(t, n)])) = t
     \<and> page_num (chunk_loop ov (pre @ [(t, n)])) = Some n
     \<and> (current_string (chunk_loop ov pre) \<noteq> [] \<longrightarrow>
          sealed (chunk_loop ov (pre @ [(t, n)]))
            = sealed (chunk_loop ov pre)
              @ [(current_string (chunk_loop ov pre), page_num (chunk_loop ov pre))])
     \<and> (\<exists>w v ys. sealed_chunks (pre @ (t, n) # rest) ov
            = sealed (chunk_loop ov (pre @ [(t, n)])) @ (t @ w, v) # ys)"
proof -
  let ?s = "chunk_loop ov pre" and ?s' = "chunk_loop ov (pre @ [(t, n)])"
  have h: "is_header t" using assms by (simp add: is_header_def)
  have s': "?s' = (if page_num ?s \<noteq> None then seal ?s else ?s)
                    \<lparr>current_string := t, page_num := Some n\<rparr>"
    using h by (simp add: loop_snoc chunk_step_def)
  have cur: "current_string ?s' = t" and pg: "page_num ?s' = Some n"
    by (simp_all add: s' seal_def)
  have sl: "sealed ?s' = sealed ?s @ [(current_string ?s, page_num ?s)]"
    if "current_string ?s \<noteq> []"
  proof -
    have "page_num ?s \<noteq> None" using loop_acc_ok [of ov pre] that by (auto simp: acc_ok_def)
    then show ?thesis by (simp add: s' seal_def)
  qed
  have "acc_ok ?s'" by (rule loop_acc_ok)
  from sealed_next [OF this, of ov rest]
  obtain w v ys where "sealed (seal (foldl (chunk_step ov) ?s' rest))
      = sealed ?s' @ (current_string ?s' @ w, v) # ys" by blast
  moreover have "sealed_chunks (pre @ (t, n) # rest) ov
      = sealed (seal (foldl (chunk_step ov) ?s' rest))"
    using loop_append [of ov "pre @ [(t, n)]" rest] by (simp add: sealed_chunks_def)
  ultimately have nx: "\<exists>w v ys. sealed_chunks (pre @ (t, n) # rest) ov
      = sealed ?s' @ (t @ w, v) # ys"
    using cur by auto
  show ?thesis using cur pg sl nx by blast
qed

text \<open>The theorem at \<open>[("a", 1), ("# H", 2), ("b", 3)]\<close>, the heading second.\<close>

theorem heading_starts_new_chunk_witness:
  "current_string (chunk_loop True ([(''a'', 1)] @ [(''# H'', 2)])) = ''# H''
   \<and> sealed (chunk_loop True ([(''a'', 1)] @ [(''# H'', 2)])) = [('' a'', Some 1)]
   \<and> sealed_chunks ([(''a'', 1)] @ (''# H'', 2) # [(''b'', 3)]) True
       = [('' a'', Some 1), (''# H b'', Some 2)]"
proof -
  have a: "1 < length ''# H''" by simp
  have b: "take 1 ''# H'' = ''#''" by simp
  have c: "current_string (chunk_loop True [(''a'', 1)]) \<noteq> []" by (simp add: chunk_eval)
  have d: "sealed (chunk_loop True [(''a'', 1)])
       @ [(current_string (chunk_loop True [(''a'', 1)]), page_num (chunk_loop True [(''a'', 1)]))]
     = [('' a'', Some 1)]"
    by (simp add: chunk_eval)
  have e: "sealed_chunks ([(''a'', 1)] @ (''# H'', 2) # [(''b'', 3)]) True
       = [('' a'', Some 1), (''# H b'', Some 2)]" by (simp add: chunk_eval)
  from heading_starts_new_chunk [OF a b, of True "[(''a'', 1)]" 2 "[(''b'', 3)]"] c d e
  show ?thesis by simp
qed

text \<open>
  Claim C4 as stated fails: the segment \<open>#\<close> begins with \<open>#\<close>, and it is appended to the
  chunk before it.
\<close>

theorem heading_starts_new_chunk_counterexample:
  "naive_chunking [(''a'', 1), (''#'', 2)] True = [\<lparr>chunk_text = '' a #'', page_no = Some 1\<rparr>]"
  by (simp add: chunk_eval)

subsection \<open>Order of the output\<close>

text \<open>
  Claim C5, as amended. The list that \<open>naive_chunking\<close> returns has one entry for every
  distinct text among the sealed accumulators, in the order in which each text was
  first sealed, and with the page of the last accumulator sealed with that text. When
  the sealed texts are pairwise distinct, the output is exactly the sealed
  accumulators in sealing order. The sealed accumulators follow the document: the
  input list is cut into blocks of consecutive segments, one block for each sealed
  accumulator in sealing order, and the accumulator's text is its block's texts
  joined by single spaces, after a seed and a space when the accumulator was
  restarted with overlap; a seed is the text of a segment of an earlier block (the
  overlap duplication) or empty. With overlap off, the sealed texts put together
  are, space characters apart, the input segments' texts put together in input order.
\<close>

theorem chunk_order:
  "map chunk_text (naive_chunking segs ov)
     = rev (remdups (rev (map fst (sealed_chunks segs ov))))
   \<and> (\<forall>c\<in>set (naive_chunking segs ov).
        map_of (rev (sealed_chunks segs ov)) (chunk_text c) = Some (page_no c))
   \<and> (distinct (map fst (sealed_chunks segs ov)) \<longrightarrow>
        naive_chunking segs ov = map mk_chunk (sealed_chunks segs ov))
   \<and> unspaced (concat (map fst (sealed_chunks segs False))) = unspaced (concat (map fst segs))
   \<and> (\<exists>ps. concat (map snd ps) = segs \<and> seeds_ok ov {} ps
         \<and> map fst (sealed_chunks segs ov) = map render ps
         \<and> map chunk_text (naive_chunking segs ov) = rev (remdups (rev (map render ps))))"
proof -
  let ?xs = "sealed_chunks segs ov"
  have keys: "map chunk_text (naive_chunking segs ov) = rev (remdups (rev (map fst ?xs)))"
    by (simp add: naive_chunking_assign_all mk_chunk_def comp_def keys_assign_all [symmetric])
  have pages: "map_of (rev ?xs) (chunk_text c) = Some (page_no c)"
    if "c \<in> set (naive_chunking segs ov)" for c
  proof -
    from that obtain kv where kv: "kv \<in> set (assign_all ?xs)" "c = mk_chunk kv"
      by (auto simp: naive_chunking_assign_all)
    have "distinct (map fst (assign_all ?xs))" by (simp add: keys_assign_all)
    then have "map_of (assign_all ?xs) (fst kv) = Some (snd kv)"
      using kv(1) by (cases kv) simp
    then show ?thesis by (simp add: kv(2) mk_chunk_def map_of_assign_all)
  qed
  have same: "naive_chunking segs ov = map mk_chunk ?xs" if "distinct (map fst ?xs)"
    using that by (simp add: naive_chunking_assign_all assign_all_distinct)
  obtain ps where ps: "concat (map snd ps) = segs" "seeds_ok ov {} ps"
      "map fst ?xs = map render ps"
    using sealed_chunks_parts [of segs ov] by blast
  have blocks: "\<exists>ps. concat (map snd ps) = segs \<and> seeds_ok ov {} ps
         \<and> map fst ?xs = map render ps
         \<and> map chunk_text (naive_chunking segs ov) = rev (remdups (rev (map render ps)))"
    using ps keys by auto
  show ?thesis using keys pages same sealed_flat blocks by blast
qed

text \<open>
  The theorem at two segments of 2000 characters with overlap: the second chunk is
  the block of the second segment after the first segment's text as seed.
\<close>

theorem chunk_order_witness:
  "distinct (map fst (sealed_chunks
       [(replicate 2000 CHR ''a'', 1), (replicate 2000 CHR ''b'', 2)] True))
   \<and> naive_chunking [(replicate 2000 CHR ''a'', 1), (replicate 2000 CHR ''b'', 2)] True
       = map mk_chunk (sealed_chunks
           [(replicate 2000 CHR ''a'', 1), (replicate 2000 CHR ''b'', 2)] True)
   \<and> map fst (sealed_chunks [(replicate 2000 CHR ''a'', 1), (replicate 2000 CHR ''b'', 2)] True)
       = map render [(Some [], [(replicate 2000 CHR ''a'', 1)]),
                     (Some (replicate 2000 CHR ''a''), [(replicate 2000 CHR ''b'', 2)])]
   \<and> seeds_ok True {} [(Some [], [(replicate 2000 CHR ''a'', 1)]),
                        (Some (replicate 2000 CHR ''a''), [(replicate 2000 CHR ''b'', 2)])]"
proof -
  let ?segs = "[(replicate 2000 CHR ''a'', 1::int), (replicate 2000 CHR ''b'', 2)]"
  have ne: "CHR '' '' # replicate 2000 CHR ''a''
      \<noteq> replicate 2000 CHR ''a'' @ CHR '' '' # replicate 2000 CHR ''b''"
    by (rule neq_by_length) simp
  have e: "sealed_chunks ?segs True
      = [(CHR '' '' # replicate 2000 CHR ''a'', Some 1),
         (replicate 2000 CHR ''a'' @ CHR '' '' # replicate 2000 CHR ''b'', Some 2)]"
    by (simp add: chunk_eval)
  have d: "distinct (map fst (sealed_chunks ?segs True))"
    using ne by (simp add: e)
  have r: "map fst (sealed_chunks ?segs True)
       = map render [(Some [], [(replicate 2000 CHR ''a'', 1)]),
                     (Some (replicate 2000 CHR ''a''), [(replicate 2000 CHR ''b'', 2)])]"
    by (simp add: e spaced_def)
  have k: "seeds_ok True {} [(Some [], [(replicate 2000 CHR ''a'', 1)]),
                        (Some (replicate 2000 CHR ''a''), [(replicate 2000 CHR ''b'', 2)])]"
    by (simp add: part_ok_def)
  from chunk_order [of ?segs True] d r k show ?thesis by blast
qed

text \<open>
  Claim C5 as stated fails: three accumulators are sealed, the first and the third with
  the same text, and the output has two entries, the first with the third's page.
\<close>

theorem chunk_order_counterexample:
  "sealed_chunks [(''# A'', 1), (''# B'', 2), (''# A'', 3)] True
     = [(''# A'', Some 1), (''# B'', Some 2), (''# A'', Some 3)]
   \<and> naive_chunking [(''# A'', 1), (''# B'', 2), (''# A'', 3)] True
     = [\<lparr>chunk_text = ''# A'', page_no = Some 3\<rparr>, \<lparr>chunk_text = ''# B'', page_no = Some 2\<rparr>]"
  by (simp add: chunk_eval)

section \<open>The detector's properties\<close>

lemma later_entries_eq:
  "later_entries d es S = S \<union> toc_page ` {e \<in> set es. toc_depth e \<noteq> d}"
  by (induction d es S rule: later_entries.induct) auto

lemma toc_loop_mono: "S \<subseteq> toc_loop n es S"
proof (induction n es S rule: toc_loop.induct)
  case (1 n S)
  show ?case by simp
next
  case (2 n item rest S)
  have "S \<subseteq> (if matches_denylist (toc_title item) then
          (let S1 = later_entries (toc_depth item) rest (insert (toc_page item) S)
           in if rest = [] then S1 \<union> {toc_page item..<int n} else S1)
        else S)"
    by (auto simp: later_entries_eq Let_def)
  then show ?case using "2.IH" by (simp del: later_entries.simps)
qed

lemma toc_loop_hit:
  "matches_denylist (toc_title item) \<Longrightarrow>
   entry_exclusions n item rest \<subseteq> toc_loop n (pre @ item # rest) S"
proof (induction pre arbitrary: S)
  case Nil
  have "entry_exclusions n item rest \<subseteq>
        (let S1 = later_entries (toc_depth item) rest (insert (toc_page item) S)
           in if rest = [] then S1 \<union> {toc_page item..<int n} else S1)"
    by (auto simp: entry_exclusions_def later_entries_eq Let_def)
  also have "\<dots> \<subseteq> toc_loop n rest \<dots>" by (rule toc_loop_mono)
  finally show ?case using Nil by (simp del: later_entries.simps)
next
  case (Cons p pre)
  then show ?case by (simp del: later_entries.simps)
qed

lemma toc_loop_bounded:
  "(\<forall>e\<in>set es. 0 \<le> toc_page e \<and> toc_page e < int n) \<Longrightarrow> S \<subseteq> {0..<int n}
   \<Longrightarrow> toc_loop n es S \<subseteq> {0..<int n}"
proof (induction n es S rule: toc_loop.induct)
  case (1 n S)
  then show ?case by simp
next
  case (2 n item rest S)
  have "(if matches_denylist (toc_title item) then
          (let S1 = later_entries (toc_depth item) rest (insert (toc_page item) S)
           in if rest = [] then S1 \<union> {toc_page item..<int n} else S1)
        else S) \<subseteq> {0..<int n}"
    using "2.prems" by (auto simp: later_entries_eq Let_def)
  then show ?case using "2.IH" "2.prems"(1) by (simp del: later_entries.simps)
qed

lemma page_loop_snoc: "page_loop (ps @ [p]) = page_step (page_loop ps) (length ps, p)"
  by (simp add: page_loop_def)

lemma page_step_mono: "pages_to_remove s \<subseteq> pages_to_remove (page_step s np)"
  by (cases np) (auto simp: page_step_def Let_def)

lemma page_step_bounded:
  "pages_to_remove s \<subseteq> {0..<int k} \<Longrightarrow> pages_to_remove (page_step s (k, p)) \<subseteq> {0..<int k + 1}"
  by (auto simp: page_step_def Let_def)

lemma page_loop_bounded: "pages_to_remove (page_loop ps) \<subseteq> {0..<int (length ps)}"
proof (induction ps rule: rev_induct)
  case Nil
  show ?case by (simp add: page_loop_def detector_init_def)
next
  case (snoc p ps)
  from page_step_bounded [OF snoc] show ?case by (simp add: page_loop_snoc add.commute)
qed

lemma page_step_lang:
  "lang p \<noteq> Some ''en'' \<Longrightarrow> int k \<in> pages_to_remove (page_step s (k, p))"
  by (simp add: page_step_def)

lemma page_loop_lang:
  "i < length ps \<Longrightarrow> lang (ps ! i) \<noteq> Some ''en'' \<Longrightarrow> int i \<in> pages_to_remove (page_loop ps)"
proof (induction ps rule: rev_induct)
  case Nil
  then show ?case by simp
next
  case (snoc p ps)
  show ?case
  proof (cases "i < length ps")
    case True
    then have "int i \<in> pages_to_remove (page_loop ps)"
      using snoc by (simp add: nth_append)
    then show ?thesis using page_step_mono [of "page_loop ps" "(length ps, p)"]
      by (auto simp: page_loop_snoc)
  next
    case False
    then have i: "i = length ps" using snoc.prems(1) by simp
    then have "lang p \<noteq> Some ''en''" using snoc.prems(2) by simp
    then show ?thesis by (simp add: i page_loop_snoc page_step_lang)
  qed
qed

subsection \<open>Exclusion driven by table-of-contents entries\<close>

text \<open>
  Claim C1, as amended. For every document whose table of contents has an entry whose
  title contains, as written, one of the pattern's literals (other resources,
  additional resources, acronyms, abbreviations, abstract, index, recycling,
  specifications), \<open>detect_irrelevant_pages\<close> excludes that entry's page number and the
  page number of every later entry whose depth differs from the entry's depth, deeper
  or shallower, up to the end of the table; later entries of the same depth are not
  added by this rule; and when the entry is the last one, every page from its page
  number to the end of the document is excluded.
\<close>

theorem toc_entry_exclusion:
  assumes "toc doc = pre @ item # rest" and "matches_denylist (toc_title item)"
  shows "toc_page item \<in> detect_irrelevant_pages doc
     \<and> (\<forall>e\<in>set rest. toc_depth e \<noteq> toc_depth item
           \<longrightarrow> toc_page e \<in> detect_irrelevant_pages doc)
     \<and> (rest = [] \<longrightarrow> {toc_page item..<int (length (pages doc))} \<subseteq> detect_irrelevant_pages doc)
     \<and> later_entries (toc_depth item) rest S
         = S \<union> toc_page ` {e \<in> set rest. toc_depth e \<noteq> toc_depth item}"
proof -
  have "entry_exclusions (length (pages doc)) item rest \<subseteq> detect_irrelevant_pages doc"
    unfolding detect_irrelevant_pages_def assms(1) by (rule toc_loop_hit) (rule assms(2))
  then show ?thesis by (auto simp: entry_exclusions_def later_entries_eq)
qed

text \<open>
  The theorem at a document of twelve plain pages with the table of contents
  \<open>lower_toc\<close> and its second entry: pages 5 and 8 are excluded, page 10 is not.
\<close>

theorem toc_entry_exclusion_witness:
  "matches_denylist ''other resources''
   \<and> 5 \<in> detect_irrelevant_pages \<lparr>pages = replicate 12 plain_page, toc = lower_toc\<rparr>
   \<and> 8 \<in> detect_irrelevant_pages \<lparr>pages = replicate 12 plain_page, toc = lower_toc\<rparr>
   \<and> 10 \<notin> detect_irrelevant_pages \<lparr>pages = replicate 12 plain_page, toc = lower_toc\<rparr>"
proof -
  let ?doc = "\<lparr>pages = replicate 12 plain_page, toc = lower_toc\<rparr>"
  have t: "toc ?doc = [(''Intro'', 1, 1)] @ (''other resources'', 5, 1)
                        # [(''Specs'', 8, 2), (''Index'', 10, 1)]"
    by (simp add: lower_toc_def)
  have m: "matches_denylist (toc_title (''other resources'', 5, 1))"
    by code_simp
  have m': "matches_denylist ''other resources''"
    by code_simp
  have n: "10 \<notin> detect_irrelevant_pages ?doc"
    by code_simp
  from toc_entry_exclusion [OF t m]
  have "5 \<in> detect_irrelevant_pages ?doc" and "8 \<in> detect_irrelevant_pages ?doc"
    by (simp_all add: toc_page_def toc_depth_def)
  then show ?thesis using m' n by simp
qed

text \<open>
  Claim C1 as stated fails. On the spec's table of contents nothing is excluded, since
  neither \<open>Resources\<close> nor \<open>Index\<close> contains a literal of the pattern as written; and
  when the second title does match, the deeper entry's page 8 is excluded and the
  same-depth entry's page 10 is not.
\<close>

theorem toc_entry_exclusion_counterexample:
  "detect_irrelevant_pages \<lparr>pages = replicate 12 plain_page, toc = spec_toc\<rparr> = {}
   \<and> detect_irrelevant_pages \<lparr>pages = replicate 12 plain_page, toc = lower_toc\<rparr> = {5, 8}"
  by code_simp

subsection \<open>Pages on which language detection fails\<close>

text \<open>
  Claim C2, as amended. A page on which language detection fails (\<open>lang\<close> stays \<open>None\<close>)
  is treated like a page whose detected language is not the target language: every
  page whose language is not detected as \<open>en\<close> is added to the exclusion set.
\<close>

theorem undetected_language_excluded:
  "i < length (pages doc) \<Longrightarrow> lang (pages doc ! i) \<noteq> Some ''en''
   \<Longrightarrow> int i \<in> detect_irrelevant_pages doc"
  using page_loop_lang [of i "pages doc"] toc_loop_mono
  by (auto simp: detect_irrelevant_pages_def)

text \<open>The theorem at a one-page document on whose page detection fails.\<close>

theorem undetected_language_excluded_witness:
  "lang undetected_page = None
   \<and> int 0 \<in> detect_irrelevant_pages \<lparr>pages = [undetected_page], toc = []\<rparr>"
proof -
  have a: "0 < length (pages \<lparr>pages = [undetected_page], toc = []\<rparr>)" by simp
  have b: "lang (pages \<lparr>pages = [undetected_page], toc = []\<rparr> ! 0) \<noteq> Some ''en''"
    by (simp add: undetected_page_def plain_page_def)
  have c: "lang undetected_page = None" by (simp add: undetected_page_def plain_page_def)
  from undetected_language_excluded [OF a b] c show ?thesis by simp
qed

text \<open>
  Claim C2 as stated fails: of two documents that differ only in that detection fails
  on the second page of one, that one has the page excluded and the other has not.
\<close>

theorem undetected_language_counterexample:
  "detect_irrelevant_pages \<lparr>pages = [plain_page, undetected_page], toc = []\<rparr> = {1}
   \<and> detect_irrelevant_pages \<lparr>pages = [plain_page, plain_page], toc = []\<rparr> = {}"
  by code_simp

subsection \<open>Range of the excluded indices\<close>

text \<open>
  Claim C10, as amended. The per-page rules only add indices that are non-negative and
  less than the number of pages. The rule driven by the table of contents adds the
  entries' page numbers as they stand, so the whole set is within that range
  provided every entry's page number is.
\<close>

theorem exclusion_in_range:
  "(\<forall>x\<in>pages_to_remove (page_loop (pages doc)). 0 \<le> x \<and> x < int (length (pages doc)))
   \<and> ((\<forall>e\<in>set (toc doc). 0 \<le> toc_page e \<and> toc_page e < int (length (pages doc)))
      \<longrightarrow> (\<forall>x\<in>detect_irrelevant_pages doc. 0 \<le> x \<and> x < int (length (pages doc))))"
proof -
  have a: "pages_to_remove (page_loop (pages doc)) \<subseteq> {0..<int (length (pages doc))}"
    by (rule page_loop_bounded)
  have b: "detect_irrelevant_pages doc \<subseteq> {0..<int (length (pages doc))}"
    if "\<forall>e\<in>set (toc doc). 0 \<le> toc_page e \<and> toc_page e < int (length (pages doc))"
    unfolding detect_irrelevant_pages_def using that a by (rule toc_loop_bounded)
  have a': "\<forall>x\<in>pages_to_remove (page_loop (pages doc)). 0 \<le> x \<and> x < int (length (pages doc))"
    using a by (simp add: subset_iff)
  have b': "\<forall>x\<in>detect_irrelevant_pages doc. 0 \<le> x \<and> x < int (length (pages doc))"
    if "\<forall>e\<in>set (toc doc). 0 \<le> toc_page e \<and> toc_page e < int (length (pages doc))"
    using b [OF that] by (simp add: subset_iff)
  show ?thesis using a' b' by blast
qed

text \<open>
  The theorem at a three-page document whose first page is excluded by the title-page
  rule and whose only entry, \<open>index\<close>, is at page 2.
\<close>

theorem exclusion_in_range_witness:
  "2 \<in> detect_irrelevant_pages
          \<lparr>pages = [plain_page\<lparr>title_words := True\<rparr>, plain_page, plain_page],
           toc = [(''index'', 2, 1)]\<rparr>
   \<and> (0::int) \<le> 2 \<and> (2::int) < int (length [plain_page\<lparr>title_words := True\<rparr>, plain_page, plain_page])
   \<and> 0 \<in> pages_to_remove (page_loop [plain_page\<lparr>title_words := True\<rparr>, plain_page, plain_page])"
proof -
  let ?ps = "[plain_page\<lparr>title_words := True\<rparr>, plain_page, plain_page]"
  let ?doc = "\<lparr>pages = ?ps, toc = [(''index'', 2, 1)]\<rparr>"
  have h: "\<forall>e\<in>set (toc ?doc). 0 \<le> toc_page e \<and> toc_page e < int (length (pages ?doc))"
    by (simp add: toc_page_def)
  have m: "2 \<in> detect_irrelevant_pages ?doc" by code_simp
  have z: "0 \<in> pages_to_remove (page_loop ?ps)" by code_simp
  from exclusion_in_range [of ?doc] h m z show ?thesis by auto
qed

text \<open>
  Claim C10 as stated fails: a three-page document whose table of contents lists
  \<open>index\<close> at page 10 has 10 in its exclusion set.
\<close>

theorem exclusion_in_range_counterexample:
  "detect_irrelevant_pages \<lparr>pages = replicate 3 plain_page, toc = [(''index'', 10, 1)]\<rparr> = {10}
   \<and> length (replicate 3 plain_page) = 3"
  by code_simp


section \<open>The linearizer's list lines\<close>

text \<open>
  The nesting counter is raised only by a list group. The item stream holds no groups,
  and then the counter stays at 0.
\<close>

lemma item_step_level_zero:
  assumes "list_nesting_level s = 0" and "cls it \<noteq> GroupItem"
  shows "list_nesting_level (item_step labels pti tables s (it, level)) = 0"
  using assms
  by (cases "cls it")
     (simp_all add: item_step_def Let_def emit_def close_list_def flush_def stringify_list_def)

lemma group_free_level_zero:
  assumes "list_nesting_level s = 0" and "\<forall>il\<in>set items. cls (fst il) \<noteq> GroupItem"
  shows "list_nesting_level (foldl (item_step labels pti tables) s items) = 0"
  using assms
proof (induction items arbitrary: s)
  case Nil
  then show ?case by simp
next
  case (Cons il items)
  obtain it level where il: "il = (it, level)" by (cases il)
  have "list_nesting_level (item_step labels pti tables s il) = 0"
    using Cons.prems by (simp add: il item_step_level_zero)
  then show ?case using Cons.IH Cons.prems(2) by simp
qed


text \<open>
  Claim C9. Every flush of the list buffer should join the buffered lines by newline
  characters. The flushes inside the loop do (\<open>stringify_list\<close>); the flush after the
  loop joins with the empty string. A document that ends with the items \<open>a\<close> and \<open>b\<close>
  gives the one segment \<open>- a- b\<close>; the same items followed by a paragraph give
  \<open>- a\<close>, newline, \<open>- b\<close>.
\<close>

theorem end_of_stream_flush_unjoined:
  "process_pdf item_labels {} False [(bullet ''a'' 1, 1), (bullet ''b'' 1, 1)]
     = [(''- a- b'', Some 1)]
   \<and> process_pdf item_labels {} False
        [(bullet ''a'' 1, 1), (bullet ''b'' 1, 1), (plain_text ''t'' 1, 1)]
     = [(''- a'' @ [CHR 0x0A] @ ''- b'', Some 1), (''t'', Some 1)]"
  by code_simp

section \<open>Failures of the store\<close>

text \<open>
  Claim C7, as amended. In \<open>retrieve_context\<close> every failure, of the connection or of a
  call in the \<open>try\<close> block, reaches the caller as the exception that was raised: a
  normal return means that every call returned; and the connection, once acquired, is
  closed on every exit path. In \<open>add_manual_chunks_to_db\<close> the connection, once
  acquired, is closed on every exit path as well, but a failure of any statement after
  that is caught and printed, and the function returns normally.
\<close>

theorem store_failures:
  "snd (retrieve_context w) \<noteq> Open
   \<and> (get_psycopg_client w = None \<longrightarrow> snd (retrieve_context w) = Closed)
   \<and> (\<forall>r. fst (retrieve_context w) = Inr r \<longrightarrow>
          get_psycopg_client w = None \<and> register_vector w = None
          \<and> generate_embeddings w = None
          \<and> execute_manuals w = Inr (manuals r) \<and> execute_tickets w = Inr (tickets r))
   \<and> (\<forall>e. fst (retrieve_context w) = Inl e \<longrightarrow>
          get_psycopg_client w = Some e \<or> register_vector w = Some e
          \<or> generate_embeddings w = Some e
          \<or> execute_manuals w = Inl e \<or> execute_tickets w = Inl e)
   \<and> (get_psycopg_client w = None \<longrightarrow>
          fst (add_manual_chunks_to_db w cs) = Inr ()
          \<and> fst (snd (add_manual_chunks_to_db w cs)) = Closed
          \<and> snd (snd (add_manual_chunks_to_db w cs))
              = (case insert_body w cs of None \<Rightarrow> [] | Some e \<Rightarrow> [e]))"
  by (auto simp: retrieve_context_def retrieve_body_def add_manual_chunks_to_db_def
           split: option.splits sum.splits)

text \<open>The theorem at a run in which the second query raises.\<close>

theorem store_failures_witness:
  "get_psycopg_client run_query_fails = None
   \<and> retrieve_context run_query_fails = (Inl DatabaseError, Closed)
   \<and> execute_tickets run_query_fails = Inl DatabaseError
   \<and> fst (add_manual_chunks_to_db run_query_fails [True]) = Inr ()
   \<and> fst (snd (add_manual_chunks_to_db run_query_fails [True])) = Closed"
proof -
  have g: "get_psycopg_client run_query_fails = None"
    by (simp add: run_query_fails_def run_ok_def)
  have r: "retrieve_context run_query_fails = (Inl DatabaseError, Closed)"
    by (simp add: retrieve_context_def retrieve_body_def run_query_fails_def run_ok_def)
  have x: "execute_tickets run_query_fails = Inl DatabaseError"
    by (simp add: run_query_fails_def run_ok_def)
  from store_failures [of run_query_fails "[True]"] g r x show ?thesis by simp
qed

text \<open>
  Claim C7 as stated fails for chunk insertion: when the bulk insert raises,
  \<open>add_manual_chunks_to_db\<close> returns normally, the exception only printed.
\<close>

theorem store_failures_counterexample:
  "executemany run_insert_fails = Some DatabaseError
   \<and> add_manual_chunks_to_db run_insert_fails [True] = (Inr (), Closed, [DatabaseError])"
  by (simp add: add_manual_chunks_to_db_def insert_body_def run_insert_fails_def run_ok_def)

section \<open>Fused score of the hybrid query\<close>

lemma sum_filter_key:
  "distinct (map fst xs) \<Longrightarrow>
   sum_list (map f (filter (\<lambda>r. fst r = i) xs))
     = (case map_of xs i of None \<Rightarrow> (0::rat) | Some r \<Rightarrow> f (i, r))"
proof (induction xs)
  case Nil
  show ?case by simp
next
  case (Cons x xs)
  obtain j r where x: "x = (j, r)" by (cases x)
  show ?case
  proof (cases "j = i")
    case True
    then have "filter (\<lambda>r. fst r = i) xs = []"
      using Cons.prems x by (auto simp: filter_empty_conv)
    then show ?thesis using True x by simp
  next
    case False
    then show ?thesis using Cons x by simp
  qed
qed

lemma score_eq:
  assumes "distinct (map fst (take 40 vector))" "distinct (map fst (take 40 lexical))"
  shows "score k vector lexical i
     = (case map_of (take 40 vector) i of None \<Rightarrow> 0 | Some r \<Rightarrow> rrf_score k r)
       + (case map_of (take 40 lexical) i of None \<Rightarrow> 0 | Some r \<Rightarrow> rrf_score k r)"
  using sum_filter_key [OF assms(1), of "\<lambda>r. rrf_score k (snd r)" i]
        sum_filter_key [OF assms(2), of "\<lambda>r. rrf_score k (snd r)" i]
  by (simp add: score_def searches_def split: option.splits)

lemma rrf_pos: "0 \<le> k \<Longrightarrow> 1 \<le> r \<Longrightarrow> 0 < rrf_score k r"
  by (simp add: rrf_score_def)

text \<open>
  Claim C6. In the query's result the score of a row is the sum, over the branches in
  which the row appears, of \<open>1/(k + rank)\<close>. So a row \<open>a\<close> that is in both branches (at
  rank \<open>r\<close> in the vector branch and \<open>q\<close> in the lexical branch) has a strictly higher
  score than a row that is in one branch only, all else equal: than a row \<open>b\<close> with
  the same vector rank that is absent from the lexical branch, and than a row \<open>c\<close>
  with the same lexical rank that is absent from the vector branch. The ids within a
  branch are distinct (the id is the table's key), \<open>k\<close> is not negative and ranks
  start at 1.
\<close>

theorem rrf_both_branches_preferred:
  assumes "distinct (map fst (take 40 vector))" and "distinct (map fst (take 40 lexical))"
    and "0 \<le> k"
  shows "score k vector lexical i
           = (case map_of (take 40 vector) i of None \<Rightarrow> 0 | Some r \<Rightarrow> 1 / of_int (k + r))
             + (case map_of (take 40 lexical) i of None \<Rightarrow> 0 | Some q \<Rightarrow> 1 / of_int (k + q))
     \<and> (map_of (take 40 vector) a = Some r \<and> map_of (take 40 lexical) a = Some q
         \<and> map_of (take 40 vector) b = Some r \<and> map_of (take 40 lexical) b = None \<and> 1 \<le> q
         \<longrightarrow> score k vector lexical a = 1 / of_int (k + r) + 1 / of_int (k + q)
             \<and> score k vector lexical b = 1 / of_int (k + r)
             \<and> score k vector lexical b < score k vector lexical a)
     \<and> (map_of (take 40 vector) a = Some r \<and> map_of (take 40 lexical) a = Some q
         \<and> map_of (take 40 vector) c = None \<and> map_of (take 40 lexical) c = Some q \<and> 1 \<le> r
         \<longrightarrow> score k vector lexical a = 1 / of_int (k + r) + 1 / of_int (k + q)
             \<and> score k vector lexical c = 1 / of_int (k + q)
             \<and> score k vector lexical c < score k vector lexical a)"
proof -
  have general: "score k vector lexical i
           = (case map_of (take 40 vector) i of None \<Rightarrow> 0 | Some r \<Rightarrow> 1 / of_int (k + r))
             + (case map_of (take 40 lexical) i of None \<Rightarrow> 0 | Some q \<Rightarrow> 1 / of_int (k + q))"
    using score_eq [OF assms(1,2), of k i] by (simp add: rrf_score_def split: option.splits)
  have vector_only: "score k vector lexical a = 1 / of_int (k + r) + 1 / of_int (k + q)
             \<and> score k vector lexical b = 1 / of_int (k + r)
             \<and> score k vector lexical b < score k vector lexical a"
    if "map_of (take 40 vector) a = Some r \<and> map_of (take 40 lexical) a = Some q
         \<and> map_of (take 40 vector) b = Some r \<and> map_of (take 40 lexical) b = None \<and> 1 \<le> q"
    using that score_eq [OF assms(1,2), of k a] score_eq [OF assms(1,2), of k b]
          rrf_pos [OF assms(3), of q]
    by (auto simp: rrf_score_def)
  have lexical_only: "score k vector lexical a = 1 / of_int (k + r) + 1 / of_int (k + q)
             \<and> score k vector lexical c = 1 / of_int (k + q)
             \<and> score k vector lexical c < score k vector lexical a"
    if "map_of (take 40 vector) a = Some r \<and> map_of (take 40 lexical) a = Some q
         \<and> map_of (take 40 vector) c = None \<and> map_of (take 40 lexical) c = Some q \<and> 1 \<le> r"
    using that score_eq [OF assms(1,2), of k a] score_eq [OF assms(1,2), of k c]
          rrf_pos [OF assms(3), of r]
    by (auto simp: rrf_score_def)
  show ?thesis using general vector_only lexical_only by blast
qed

text \<open>
  The theorem at the spec's example with \<open>k = 60\<close>: row 1 has rank 1 in both branches,
  row 2 has vector rank 1 and is absent from the lexical branch, and row 3 has lexical
  rank 1 and is absent from the vector branch.
\<close>

theorem rrf_both_branches_preferred_witness:
  "score 60 [(1, 1), (2, 1)] [(1, 1), (3, 1)] 1 = 1 / of_int (60 + 1) + 1 / of_int (60 + 1)
   \<and> score 60 [(1, 1), (2, 1)] [(1, 1), (3, 1)] 2 = 1 / of_int (60 + 1)
   \<and> score 60 [(1, 1), (2, 1)] [(1, 1), (3, 1)] 2 < score 60 [(1, 1), (2, 1)] [(1, 1), (3, 1)] 1
   \<and> score 60 [(1, 1), (2, 1)] [(1, 1), (3, 1)] 3 = 1 / of_int (60 + 1)
   \<and> score 60 [(1, 1), (2, 1)] [(1, 1), (3, 1)] 3 < score 60 [(1, 1), (2, 1)] [(1, 1), (3, 1)] 1"
proof -
  have d1: "distinct (map fst (take 40 [(1::nat, 1::int), (2, 1)]))" by simp
  have d2: "distinct (map fst (take 40 [(1::nat, 1::int), (3, 1)]))" by simp
  have k: "(0::int) \<le> 60" by simp
  have vo: "map_of (take 40 [(1::nat, 1::int), (2, 1)]) 1 = Some 1
      \<and> map_of (take 40 [(1::nat, 1::int), (3, 1)]) 1 = Some 1
      \<and> map_of (take 40 [(1::nat, 1::int), (2, 1)]) 2 = Some 1
      \<and> map_of (take 40 [(1::nat, 1::int), (3, 1)]) 2 = None \<and> (1::int) \<le> 1" by simp
  have lo: "map_of (take 40 [(1::nat, 1::int), (2, 1)]) 1 = Some 1
      \<and> map_of (take 40 [(1::nat, 1::int), (3, 1)]) 1 = Some 1
      \<and> map_of (take 40 [(1::nat, 1::int), (2, 1)]) 3 = None
      \<and> map_of (take 40 [(1::nat, 1::int), (3, 1)]) 3 = Some 1 \<and> (1::int) \<le> 1" by simp
  from rrf_both_branches_preferred [OF d1 d2 k, of 1 1 1 1 2 3] vo lo
  show ?thesis by blast
qed

end
